theory Spec2Isabelle
  imports Main
begin

section \<open>Text of luna/ruby_utils.py: code points, strings, errors\<close>

text \<open>
  A Python \<open>str\<close> is a sequence of Unicode code points, and \<open>len\<close> and \<open>for c in s\<close>
  count code points. A HOL \<open>char\<close> is a byte, which cannot hold U+2015, so a code point
  is modelled by its number and a string by the list of its code points. \<open>py\<close> embeds an
  ASCII literal.
\<close>

type_synonym codepoint = nat
type_synonym pystr = "codepoint list"

definition py :: "string \<Rightarrow> pystr" where
  "py s = map of_char s"

abbreviation NL :: codepoint where "NL \<equiv> 10"
abbreviation SPACE :: codepoint where "SPACE \<equiv> 32"
abbreviation PCT :: codepoint where "PCT \<equiv> 37"
abbreviation QUOTE :: codepoint where "QUOTE \<equiv> 39"
abbreviation LT :: codepoint where "LT \<equiv> 60"
abbreviation GT :: codepoint where "GT \<equiv> 62"
abbreviation LBRACE :: codepoint where "LBRACE \<equiv> 123"
abbreviation BAR :: codepoint where "BAR \<equiv> 124"
abbreviation RBRACE :: codepoint where "RBRACE \<equiv> 125"
abbreviation HBAR :: codepoint where "HBAR \<equiv> 8213"

text \<open>
  The exceptions the module can raise: a failed \<open>assert\<close> with its message, \<open>max\<close> of an
  empty list, and an index into an empty list.
\<close>

datatype error = AssertionError pystr | ValueError | IndexError

text \<open>\<open>for c in xs\<close> with a body that may raise: the first error ends the loop.\<close>

fun for_each :: "('s \<Rightarrow> 'a \<Rightarrow> error + 's) \<Rightarrow> 'a list \<Rightarrow> 's \<Rightarrow> error + 's" where
  "for_each body [] s = Inr s"
| "for_each body (c # cs) s =
     (case body s c of Inl e \<Rightarrow> Inl e | Inr s' \<Rightarrow> for_each body cs s')"

section \<open>unicode_aware_len\<close>

definition DOUBLEWIDE_CHARS :: "codepoint set" where
  "DOUBLEWIDE_CHARS = {HBAR}"

definition unicode_aware_len :: "pystr \<Rightarrow> int" where
  "unicode_aware_len string =
     fold (\<lambda>c length. if c \<in> DOUBLEWIDE_CHARS then length + 2 else length + 1) string 0"

section \<open>remove_ruby_text\<close>

record rr_state =
  rr_ret :: pystr
  rr_processing_ruby :: bool
  rr_seen_midline :: bool

text \<open>
  The four assertion messages. The first is not an f-string in the source, so its text
  keeps the braces and does not hold the line.
\<close>

definition rr_msg_repeated_start :: pystr where
  "rr_msg_repeated_start =
     py ''Repeated ruby-start encountered in line '' @ [QUOTE] @ py ''{line}'' @ [QUOTE]"

definition rr_msg_delimiter :: "pystr \<Rightarrow> pystr" where
  "rr_msg_delimiter line =
     py ''Found ruby-delimiter in non-ruby text for line '' @ [QUOTE] @ line @ [QUOTE]"

definition rr_msg_end_outside :: "pystr \<Rightarrow> pystr" where
  "rr_msg_end_outside line =
     py ''Found ruby-end outside ruby context for line '' @ [QUOTE] @ line @ [QUOTE]"

definition rr_msg_end_no_delimiter :: "pystr \<Rightarrow> pystr" where
  "rr_msg_end_no_delimiter line =
     py ''Found ruby-end without ruby-delimiter for line '' @ [QUOTE] @ line @ [QUOTE]"

definition rr_step :: "pystr \<Rightarrow> rr_state \<Rightarrow> codepoint \<Rightarrow> error + rr_state" where
  "rr_step line s c =
     (if c = LT then
        (if rr_processing_ruby s then Inl (AssertionError rr_msg_repeated_start)
         else Inr (s\<lparr>rr_processing_ruby := True, rr_seen_midline := False\<rparr>))
      else if c = BAR then
        (if \<not> rr_processing_ruby s then Inl (AssertionError (rr_msg_delimiter line))
         else Inr (s\<lparr>rr_seen_midline := True\<rparr>))
      else if c = GT then
        (if \<not> rr_processing_ruby s then Inl (AssertionError (rr_msg_end_outside line))
         else if \<not> rr_seen_midline s then Inl (AssertionError (rr_msg_end_no_delimiter line))
         else Inr (s\<lparr>rr_processing_ruby := False, rr_seen_midline := True\<rparr>))
      else if \<not> rr_processing_ruby s \<or> \<not> rr_seen_midline s then
        Inr (s\<lparr>rr_ret := rr_ret s @ [c]\<rparr>)
      else Inr s)"

definition rr_init :: rr_state where
  "rr_init = \<lparr>rr_ret = [], rr_processing_ruby = False, rr_seen_midline = False\<rparr>"

definition remove_ruby_text :: "pystr \<Rightarrow> error + pystr" where
  "remove_ruby_text line =
     (case for_each (rr_step line) line rr_init of
        Inl e \<Rightarrow> Inl e
      | Inr s \<Rightarrow> Inr (rr_ret s))"

section \<open>noruby_len\<close>

text \<open>
  The \<open>except AssertionError\<close> branch prints the message and measures the raw line. The
  printed text is not part of the returned value and is left out of the model.
\<close>

definition noruby_len :: "pystr \<Rightarrow> int" where
  "noruby_len line =
     (case remove_ruby_text line of
        Inr stripped \<Rightarrow> unicode_aware_len stripped
      | Inl e \<Rightarrow> unicode_aware_len line)"

section \<open>ruby_aware_split_words\<close>

record sw_state =
  sw_ret :: "pystr list"
  sw_acc :: pystr
  sw_processing_ruby :: bool

definition sw_msg_repeated_start :: "pystr \<Rightarrow> pystr" where
  "sw_msg_repeated_start line =
     py ''Encountered repeated ruby-start in line '' @ [QUOTE] @ line @ [QUOTE]"

definition sw_msg_end_without_start :: "pystr \<Rightarrow> pystr" where
  "sw_msg_end_without_start line =
     py ''Encountered ruby-end without ruby-start in line '' @ [QUOTE] @ line @ [QUOTE]"

text \<open>
  The flush test of the source is \<open>c == ' ' or c == '\n' and not processing_ruby\<close>;
  Python's \<open>and\<close> binds tighter than \<open>or\<close>, which is how it is written here.
\<close>

definition sw_flush :: "sw_state \<Rightarrow> codepoint \<Rightarrow> sw_state" where
  "sw_flush s c =
     (if c = SPACE \<or> (c = NL \<and> \<not> sw_processing_ruby s) then
        s\<lparr>sw_ret := (sw_ret s @ [sw_acc s]) @ (if c = NL then [ [NL] ] else []),
          sw_acc := []\<rparr>
      else s\<lparr>sw_acc := sw_acc s @ [c]\<rparr>)"

definition sw_step :: "pystr \<Rightarrow> sw_state \<Rightarrow> codepoint \<Rightarrow> error + sw_state" where
  "sw_step line s c =
     (if c = LT then
        (if sw_processing_ruby s then Inl (AssertionError (sw_msg_repeated_start line))
         else Inr (sw_flush (s\<lparr>sw_processing_ruby := True\<rparr>) c))
      else if c = GT then
        (if \<not> sw_processing_ruby s then Inl (AssertionError (sw_msg_end_without_start line))
         else Inr (sw_flush (s\<lparr>sw_processing_ruby := False\<rparr>) c))
      else Inr (sw_flush s c))"

definition sw_init :: sw_state where
  "sw_init = \<lparr>sw_ret = [], sw_acc = [], sw_processing_ruby = False\<rparr>"

definition ruby_aware_split_words :: "pystr \<Rightarrow> error + pystr list" where
  "ruby_aware_split_words line =
     (case for_each (sw_step line) line sw_init of
        Inl e \<Rightarrow> Inl e
      | Inr s \<Rightarrow> Inr (if sw_acc s \<noteq> [] then sw_ret s @ [sw_acc s] else sw_ret s))"

section \<open>apply_control_codes\<close>

record cc_state =
  processed_line :: pystr
  has_pct :: bool
  in_cc :: bool
  cc_acc :: pystr

definition cc_msg_unhandled :: "pystr \<Rightarrow> pystr \<Rightarrow> pystr" where
  "cc_msg_unhandled acc text =
     py ''Unhandled control code '' @ [QUOTE] @ acc @ [QUOTE] @ py '' in line ''
       @ [QUOTE] @ text @ [QUOTE]"

definition cc_step :: "pystr \<Rightarrow> cc_state \<Rightarrow> codepoint \<Rightarrow> error + cc_state" where
  "cc_step text s c =
     (if c = PCT then Inr (s\<lparr>has_pct := True\<rparr>)
      else if has_pct s \<and> c = LBRACE then
        Inr (s\<lparr>in_cc := True, has_pct := False, cc_acc := []\<rparr>)
      else if in_cc s \<and> c = RBRACE then
        (if cc_acc s = py ''n'' then
           Inr (s\<lparr>in_cc := False, processed_line := processed_line s @ [NL]\<rparr>)
         else if cc_acc s = py ''s'' then
           Inr (s\<lparr>in_cc := False, processed_line := processed_line s @ [SPACE]\<rparr>)
         else Inl (AssertionError (cc_msg_unhandled (cc_acc s) text)))
      else if \<not> in_cc s then Inr (s\<lparr>processed_line := processed_line s @ [c]\<rparr>)
      else Inr (s\<lparr>cc_acc := cc_acc s @ [c]\<rparr>))"

definition cc_init :: cc_state where
  "cc_init = \<lparr>processed_line = [], has_pct = False, in_cc = False, cc_acc = []\<rparr>"

definition apply_control_codes :: "pystr \<Rightarrow> error + pystr" where
  "apply_control_codes text =
     (case for_each (cc_step text) text cc_init of
        Inl e \<Rightarrow> Inl e
      | Inr s \<Rightarrow> Inr (processed_line s))"

section \<open>linebreak_text\<close>

text \<open>\<open>max\<close> of a list raises ValueError on the empty list.\<close>

fun py_max :: "int list \<Rightarrow> error + int" where
  "py_max [] = Inl ValueError"
| "py_max (x # xs) = Inr (fold max xs x)"

text \<open>\<open>sep.join(xs)\<close>.\<close>

fun join :: "pystr \<Rightarrow> pystr list \<Rightarrow> pystr" where
  "join sep [] = []"
| "join sep [x] = x"
| "join sep (x # y # ys) = x @ sep @ join sep (y # ys)"

record lb_state =
  broken_lines :: "pystr list"
  lb_acc :: pystr
  first_word :: bool
  start_cursor_pos :: int

definition lb_step :: "int \<Rightarrow> pystr \<Rightarrow> lb_state \<Rightarrow> lb_state" where
  "lb_step max_linelen word s =
     (if int (length (lb_acc s @ [SPACE] @ word)) + start_cursor_pos s > max_linelen then
        s\<lparr>broken_lines := broken_lines s @ [lb_acc s],
          lb_acc := (if word \<noteq> [NL] then word else []),
          start_cursor_pos := 0\<rparr>
      else if word = [NL] then
        s\<lparr>broken_lines := broken_lines s @ [lb_acc s],
          lb_acc := [],
          start_cursor_pos := 0,
          first_word := True\<rparr>
      else
        s\<lparr>lb_acc := (if \<not> first_word s then lb_acc s @ [SPACE] @ word else word),
          first_word := False\<rparr>)"

definition lb_init :: "int \<Rightarrow> lb_state" where
  "lb_init cursor =
     \<lparr>broken_lines = [], lb_acc = [], first_word = True, start_cursor_pos = cursor\<rparr>"

text \<open>
  The lines after the loop: the trailing accumulator is kept when it is not empty or when
  the last unit is a newline. \<open>splitLine[-1]\<close> raises IndexError on an empty list.
\<close>

definition lb_finish :: "pystr list \<Rightarrow> lb_state \<Rightarrow> error + pystr list" where
  "lb_finish splitLine s =
     (if lb_acc s \<noteq> [] then Inr (broken_lines s @ [lb_acc s])
      else (case rev splitLine of
              [] \<Rightarrow> Inl IndexError
            | w # _ \<Rightarrow> Inr (if w = [NL] then broken_lines s @ [lb_acc s]
                             else broken_lines s)))"

definition lb_pack :: "pystr list \<Rightarrow> int \<Rightarrow> int \<Rightarrow> error + pystr list" where
  "lb_pack splitLine max_linelen cursor =
     lb_finish splitLine (fold (lb_step max_linelen) splitLine (lb_init cursor))"

definition linebreak_text :: "pystr \<Rightarrow> int \<Rightarrow> int \<Rightarrow> error + pystr" where
  "linebreak_text line max_linelen cursor =
     (if noruby_len line + cursor < max_linelen then Inr line
      else (case ruby_aware_split_words line of
              Inl e \<Rightarrow> Inl e
            | Inr splitLine \<Rightarrow>
                (case py_max (map noruby_len splitLine) of
                   Inl e \<Rightarrow> Inl e
                 | Inr longest \<Rightarrow>
                     (if max_linelen < longest then Inr line
                      else (case lb_pack splitLine max_linelen cursor of
                              Inl e \<Rightarrow> Inl e
                            | Inr lines \<Rightarrow> Inr (join [NL] lines))))))"

text \<open>
  What the packing loop keeps true when it holds of every word: the flushed lines and
  the accumulator are no wider than max_linelen, the accumulator has no double-width
  code point, and the cursor is not negative.
\<close>

definition lb_fits :: "int \<Rightarrow> lb_state \<Rightarrow> bool" where
  "lb_fits max_linelen s \<longleftrightarrow>
     (\<forall>l\<in>set (broken_lines s). noruby_len l \<le> max_linelen)
     \<and> noruby_len (lb_acc s) \<le> max_linelen
     \<and> set (lb_acc s) \<inter> DOUBLEWIDE_CHARS = {}
     \<and> 0 \<le> start_cursor_pos s"

section \<open>Control codes as the header comment of apply_control_codes lists them\<close>

text \<open>
  The comment at the head of \<open>apply_control_codes\<close> gives the markers: \<open>%{n}\<close> forces a
  newline and \<open>%{s}\<close> forces a space. A text made of markers and other code points is
  described by a list of tokens, with the marker it is written as and the text it stands
  for. This is the reading of the comment that the scanner is compared with.
\<close>

datatype cc_token = Lit codepoint | ForceNewline | ForceSpace

fun cc_source :: "cc_token \<Rightarrow> pystr" where
  "cc_source (Lit c) = [c]"
| "cc_source ForceNewline = py ''%{n}''"
| "cc_source ForceSpace = py ''%{s}''"

fun cc_meaning :: "cc_token \<Rightarrow> pystr" where
  "cc_meaning (Lit c) = [c]"
| "cc_meaning ForceNewline = [NL]"
| "cc_meaning ForceSpace = [SPACE]"

section \<open>Loops\<close>

lemma for_each_append:
  "for_each body (xs @ ys) s =
     (case for_each body xs s of Inl e \<Rightarrow> Inl e | Inr s' \<Rightarrow> for_each body ys s')"
  by (induction xs arbitrary: s) (auto split: sum.splits)

section \<open>Width of a string\<close>

lemma fold_width:
  "fold (\<lambda>c length. if c \<in> DOUBLEWIDE_CHARS then length + 2 else length + 1) s (n::int) =
     n + int (length s) + int (length (filter (\<lambda>c. c \<in> DOUBLEWIDE_CHARS) s))"
  by (induction s arbitrary: n) auto

text \<open>
  C8. For a string of m code points of which n are in DOUBLEWIDE_CHARS, the width is
  m + n. The function has no error result, its value is never negative, and the
  horizontal bar U+2015 is in the set.
\<close>

theorem unicode_aware_len_count:
  "unicode_aware_len s =
     int (length s) + int (length (filter (\<lambda>c. c \<in> DOUBLEWIDE_CHARS) s))
   \<and> 0 \<le> unicode_aware_len s \<and> HBAR \<in> DOUBLEWIDE_CHARS"
  unfolding unicode_aware_len_def fold_width by (simp add: DOUBLEWIDE_CHARS_def)

section \<open>Stripping ruby text\<close>

lemma rr_plain:
  "LT \<notin> set cs \<Longrightarrow> BAR \<notin> set cs \<Longrightarrow> GT \<notin> set cs \<Longrightarrow>
   \<not> rr_processing_ruby s \<or> \<not> rr_seen_midline s \<Longrightarrow>
   for_each (rr_step line) cs s = Inr (s\<lparr>rr_ret := rr_ret s @ cs\<rparr>)"
proof (induction cs arbitrary: s)
  case Nil
  then show ?case by simp
next
  case (Cons c cs)
  have step: "rr_step line s c = Inr (s\<lparr>rr_ret := rr_ret s @ [c]\<rparr>)"
    using Cons.prems by (auto simp: rr_step_def)
  show ?case
    using Cons.prems by (simp add: step Cons.IH)
qed

lemma rr_step_ret:
  "rr_step line s c = Inr s' \<Longrightarrow>
   set (rr_ret s') \<subseteq> set (rr_ret s) \<union> ({c} - {LT, BAR, GT})"
  by (auto simp: rr_step_def split: if_splits)

lemma rr_loop_ret:
  "for_each (rr_step line) cs s = Inr s' \<Longrightarrow>
   set (rr_ret s') \<subseteq> set (rr_ret s) \<union> (set cs - {LT, BAR, GT})"
proof (induction cs arbitrary: s)
  case Nil
  then show ?case by simp
next
  case (Cons c cs)
  then obtain s1 where s1: "rr_step line s c = Inr s1"
    and rest: "for_each (rr_step line) cs s1 = Inr s'"
    by (auto split: sum.splits)
  from rr_step_ret [OF s1] Cons.IH [OF rest] show ?case by auto
qed

lemma remove_ruby_text_plain:
  "LT \<notin> set line \<Longrightarrow> BAR \<notin> set line \<Longrightarrow> GT \<notin> set line \<Longrightarrow>
   remove_ruby_text line = Inr line"
  by (simp add: remove_ruby_text_def rr_plain rr_init_def)

lemma remove_ruby_text_clean:
  "remove_ruby_text line = Inr r \<Longrightarrow> LT \<notin> set r \<and> BAR \<notin> set r \<and> GT \<notin> set r"
  using rr_loop_ret [of line line rr_init]
  by (auto simp: remove_ruby_text_def rr_init_def split: sum.splits)

text \<open>
  C9. remove_ruby_text is idempotent: a line with no \<open><\<close>, \<open>|\<close> or \<open>>\<close> is returned as it
  is, and whenever remove_ruby_text returns a result, stripping that result again
  returns it unchanged.
\<close>

theorem remove_ruby_text_idempotent:
  "(LT \<notin> set line \<and> BAR \<notin> set line \<and> GT \<notin> set line \<longrightarrow> remove_ruby_text line = Inr line)
   \<and> (remove_ruby_text line = Inr r \<longrightarrow> remove_ruby_text r = Inr r)"
  using remove_ruby_text_plain remove_ruby_text_clean by blast

theorem remove_ruby_text_idempotent_witness:
  "remove_ruby_text (py ''abc'') = Inr (py ''abc'')
   \<and> remove_ruby_text (py ''<a|b>c'') = Inr (py ''ac'')
   \<and> remove_ruby_text (py ''ac'') = Inr (py ''ac'')"
proof -
  have plain: "LT \<notin> set (py ''abc'') \<and> BAR \<notin> set (py ''abc'') \<and> GT \<notin> set (py ''abc'')"
    by (simp add: py_def)
  have strip: "remove_ruby_text (py ''<a|b>c'') = Inr (py ''ac'')"
    by code_simp
  from plain strip
    remove_ruby_text_idempotent [of "py ''abc''"]
    remove_ruby_text_idempotent [of "py ''<a|b>c''" "py ''ac''"]
  show ?thesis by blast
qed


lemma rr_error_kind:
  "for_each (rr_step line) cs s = Inl e \<Longrightarrow> \<exists>msg. e = AssertionError msg"
proof (induction cs arbitrary: s)
  case Nil
  then show ?case by simp
next
  case (Cons c cs)
  show ?case
  proof (cases "rr_step line s c")
    case (Inl e')
    with Cons.prems have "e = e'" by simp
    with Inl show ?thesis by (auto simp: rr_step_def split: if_splits)
  next
    case (Inr s1)
    with Cons.prems have "for_each (rr_step line) cs s1 = Inl e" by simp
    then show ?thesis by (rule Cons.IH)
  qed
qed





lemma noruby_len_plain:
  "LT \<notin> set line \<Longrightarrow> BAR \<notin> set line \<Longrightarrow> GT \<notin> set line \<Longrightarrow>
   noruby_len line = unicode_aware_len line"
  by (simp add: noruby_len_def remove_ruby_text_plain)










section \<open>Splitting into words\<close>

lemma sw_plain:
  "SPACE \<notin> set cs \<Longrightarrow> NL \<notin> set cs \<Longrightarrow> LT \<notin> set cs \<Longrightarrow> GT \<notin> set cs \<Longrightarrow>
   for_each (sw_step line) cs s = Inr (s\<lparr>sw_acc := sw_acc s @ cs\<rparr>)"
proof (induction cs arbitrary: s)
  case Nil
  then show ?case by simp
next
  case (Cons c cs)
  have step: "sw_step line s c = Inr (s\<lparr>sw_acc := sw_acc s @ [c]\<rparr>)"
    using Cons.prems by (auto simp: sw_step_def sw_flush_def)
  show ?case
    using Cons.prems by (simp add: step Cons.IH)
qed

lemma split_single_word:
  "SPACE \<notin> set line \<Longrightarrow> NL \<notin> set line \<Longrightarrow> LT \<notin> set line \<Longrightarrow> GT \<notin> set line \<Longrightarrow>
   line \<noteq> [] \<Longrightarrow> ruby_aware_split_words line = Inr [line]"
  by (simp add: ruby_aware_split_words_def sw_plain sw_init_def)

text \<open>
  C2, at a failing input. The flush test applies to every space, inside a ruby group or
  not: from every state a space ends the current unit. So \<open><a b|c>\<close> is split at its
  space into the two units \<open><a\<close> and \<open>b|c>\<close>, a unit boundary strictly inside the
  annotation.
\<close>

theorem split_words_space_in_ruby:
  "sw_step line s SPACE = Inr (s\<lparr>sw_ret := sw_ret s @ [sw_acc s], sw_acc := []\<rparr>)
   \<and> ruby_aware_split_words (py ''<a b|c>'') = Inr [py ''<a'', py ''b|c>'']"
  by (simp add: ruby_aware_split_words_def sw_init_def sw_step_def sw_flush_def py_def)

section \<open>Expanding control codes\<close>

lemma cc_lit:
  "\<not> in_cc s \<Longrightarrow> \<not> has_pct s \<Longrightarrow> c \<noteq> PCT \<Longrightarrow>
   cc_step text s c = Inr (s\<lparr>processed_line := processed_line s @ [c]\<rparr>)"
  by (simp add: cc_step_def)

lemma cc_force_newline:
  "for_each (cc_step text) (py ''%{n}'') s =
     Inr (s\<lparr>has_pct := False, in_cc := False, cc_acc := py ''n'',
           processed_line := processed_line s @ [NL]\<rparr>)"
  by (simp add: cc_step_def py_def)

lemma cc_force_space:
  "for_each (cc_step text) (py ''%{s}'') s =
     Inr (s\<lparr>has_pct := False, in_cc := False, cc_acc := py ''s'',
           processed_line := processed_line s @ [SPACE]\<rparr>)"
  by (simp add: cc_step_def py_def)

lemma cc_token:
  assumes "t \<noteq> Lit PCT" "\<not> in_cc s" "\<not> has_pct s"
  shows "\<exists>s'. for_each (cc_step text) (cc_source t) s = Inr s'
           \<and> processed_line s' = processed_line s @ cc_meaning t
           \<and> \<not> in_cc s' \<and> \<not> has_pct s'"
proof (cases t)
  case (Lit c)
  with assms show ?thesis by (simp add: cc_lit)
next
  case ForceNewline
  then show ?thesis by (simp add: cc_force_newline)
next
  case ForceSpace
  then show ?thesis by (simp add: cc_force_space)
qed

lemma cc_tokens:
  "\<forall>t\<in>set toks. t \<noteq> Lit PCT \<Longrightarrow> \<not> in_cc s \<Longrightarrow> \<not> has_pct s \<Longrightarrow>
   \<exists>s'. for_each (cc_step text) (concat (map cc_source toks)) s = Inr s'
           \<and> processed_line s' = processed_line s @ concat (map cc_meaning toks)
           \<and> \<not> in_cc s' \<and> \<not> has_pct s'"
proof (induction toks arbitrary: s)
  case Nil
  then show ?case by simp
next
  case (Cons t toks)
  from Cons.prems have t: "t \<noteq> Lit PCT" and rest: "\<forall>t\<in>set toks. t \<noteq> Lit PCT"
    by simp_all
  from Cons.prems have normal: "\<not> in_cc s" "\<not> has_pct s"
    by simp_all
  from cc_token [OF t normal, of "text"] obtain s1
    where s1: "for_each (cc_step text) (cc_source t) s = Inr s1"
      and out1: "processed_line s1 = processed_line s @ cc_meaning t"
      and normal1: "\<not> in_cc s1" "\<not> has_pct s1" by blast
  from Cons.IH [OF rest normal1] obtain s'
    where s': "for_each (cc_step text) (concat (map cc_source toks)) s1 = Inr s'"
      and out': "processed_line s' = processed_line s1 @ concat (map cc_meaning toks)"
      and normal': "\<not> in_cc s'" "\<not> has_pct s'" by blast
  have "for_each (cc_step text) (concat (map cc_source (t # toks))) s = Inr s'"
    by (simp add: for_each_append s1 s')
  with out1 out' normal' show ?case by simp
qed

lemma cc_name:
  "in_cc s \<Longrightarrow> \<not> has_pct s \<Longrightarrow> PCT \<notin> set name \<Longrightarrow> RBRACE \<notin> set name \<Longrightarrow>
   for_each (cc_step text) name s = Inr (s\<lparr>cc_acc := cc_acc s @ name\<rparr>)"
proof (induction name arbitrary: s)
  case Nil
  then show ?case by simp
next
  case (Cons c name)
  have step: "cc_step text s c = Inr (s\<lparr>cc_acc := cc_acc s @ [c]\<rparr>)"
    using Cons.prems by (auto simp: cc_step_def)
  show ?case
    using Cons.prems by (simp add: step Cons.IH)
qed

lemma cc_open:
  "for_each (cc_step text) (py ''%{'') s =
     Inr (s\<lparr>has_pct := False, in_cc := True, cc_acc := []\<rparr>)"
  by (simp add: cc_step_def py_def)

lemma for_each_error:
  "for_each body xs s = Inl e \<Longrightarrow> for_each body (xs @ ys) s = Inl e"
  by (simp add: for_each_append)

lemma cc_unhandled:
  assumes toks: "\<forall>t\<in>set toks. t \<noteq> Lit PCT"
    and name: "name \<noteq> py ''n''" "name \<noteq> py ''s''" "PCT \<notin> set name" "RBRACE \<notin> set name"
  shows "for_each (cc_step text) (concat (map cc_source toks) @ py ''%{'' @ name @ RBRACE # rest) cc_init
           = Inl (AssertionError (cc_msg_unhandled name text))"
proof -
  from cc_tokens [OF toks, of cc_init "text"] obtain s1
    where s1: "for_each (cc_step text) (concat (map cc_source toks)) cc_init = Inr s1"
    by (auto simp: cc_init_def)
  let ?s2 = "s1\<lparr>has_pct := False, in_cc := True, cc_acc := []\<rparr>"
  have s3: "for_each (cc_step text) name ?s2 = Inr (?s2\<lparr>cc_acc := name\<rparr>)"
    using cc_name [of ?s2 name "text"] name by simp
  have close: "cc_step text (?s2\<lparr>cc_acc := name\<rparr>) RBRACE
                 = Inl (AssertionError (cc_msg_unhandled name text))"
    using name by (simp add: cc_step_def)
  show ?thesis
    using close by (simp add: for_each_append s1 cc_open s3)
qed

lemma cc_close_other:
  "in_cc s \<Longrightarrow> cc_acc s \<noteq> py ''n'' \<Longrightarrow> cc_acc s \<noteq> py ''s'' \<Longrightarrow>
   cc_step text s RBRACE = Inl (AssertionError (cc_msg_unhandled (cc_acc s) text))"
  by (simp add: cc_step_def)

text \<open>
  C7. From every scanner state the marker \<open>%{n}\<close> adds a newline to the output and the
  marker \<open>%{s}\<close> adds a space; a code point other than \<open>%\<close> met outside a control code
  with no pending \<open>%\<close> is copied to the output; a \<open>}\<close> that closes a control code whose
  accumulated name is neither \<open>n\<close> nor \<open>s\<close> raises the assertion error for that name.
  For the whole function: on a text made of \<open>%{n}\<close> markers, \<open>%{s}\<close> markers and code
  points other than \<open>%\<close>, apply_control_codes returns the text with every \<open>%{n}\<close>
  replaced by a newline, every \<open>%{s}\<close> by a space and every other code point unchanged;
  when such a text is followed by a closed code \<open>%{name}\<close> with another name, the call
  raises. And \<open>a%{n}b%{s}c\<close> gives \<open>a\<close>, newline, \<open>b c\<close>.
\<close>

theorem apply_control_codes_expands:
  "for_each (cc_step text) (py ''%{n}'') s =
     Inr (s\<lparr>has_pct := False, in_cc := False, cc_acc := py ''n'',
           processed_line := processed_line s @ [NL]\<rparr>)
   \<and> for_each (cc_step text) (py ''%{s}'') s =
     Inr (s\<lparr>has_pct := False, in_cc := False, cc_acc := py ''s'',
           processed_line := processed_line s @ [SPACE]\<rparr>)
   \<and> (\<not> in_cc s \<and> \<not> has_pct s \<and> c \<noteq> PCT \<longrightarrow>
        cc_step text s c = Inr (s\<lparr>processed_line := processed_line s @ [c]\<rparr>))
   \<and> (in_cc s \<and> cc_acc s \<noteq> py ''n'' \<and> cc_acc s \<noteq> py ''s'' \<longrightarrow>
        cc_step text s RBRACE = Inl (AssertionError (cc_msg_unhandled (cc_acc s) text)))
   \<and> ((\<forall>t\<in>set toks. t \<noteq> Lit PCT) \<longrightarrow>
        apply_control_codes (concat (map cc_source toks)) = Inr (concat (map cc_meaning toks))
        \<and> (name \<noteq> py ''n'' \<and> name \<noteq> py ''s'' \<and> PCT \<notin> set name \<and> RBRACE \<notin> set name \<longrightarrow>
             apply_control_codes (concat (map cc_source toks) @ py ''%{'' @ name @ [RBRACE] @ rest)
               = Inl (AssertionError (cc_msg_unhandled name
                   (concat (map cc_source toks) @ py ''%{'' @ name @ [RBRACE] @ rest)))))
   \<and> apply_control_codes (py ''a%{n}b%{s}c'') = Inr (py ''a'' @ [NL] @ py ''b c'')"
proof (intro conjI impI)
  show "for_each (cc_step text) (py ''%{n}'') s =
     Inr (s\<lparr>has_pct := False, in_cc := False, cc_acc := py ''n'',
           processed_line := processed_line s @ [NL]\<rparr>)"
    by (rule cc_force_newline)
next
  show "for_each (cc_step text) (py ''%{s}'') s =
     Inr (s\<lparr>has_pct := False, in_cc := False, cc_acc := py ''s'',
           processed_line := processed_line s @ [SPACE]\<rparr>)"
    by (rule cc_force_space)
next
  assume "\<not> in_cc s \<and> \<not> has_pct s \<and> c \<noteq> PCT"
  then show "cc_step text s c = Inr (s\<lparr>processed_line := processed_line s @ [c]\<rparr>)"
    by (simp add: cc_lit)
next
  assume "in_cc s \<and> cc_acc s \<noteq> py ''n'' \<and> cc_acc s \<noteq> py ''s''"
  then show "cc_step text s RBRACE = Inl (AssertionError (cc_msg_unhandled (cc_acc s) text))"
    by (simp add: cc_close_other)
next
  assume toks: "\<forall>t\<in>set toks. t \<noteq> Lit PCT"
  from cc_tokens [OF toks, of cc_init "concat (map cc_source toks)"]
  show "apply_control_codes (concat (map cc_source toks)) = Inr (concat (map cc_meaning toks))"
    by (auto simp: apply_control_codes_def cc_init_def)
next
  assume toks: "\<forall>t\<in>set toks. t \<noteq> Lit PCT"
    and name: "name \<noteq> py ''n'' \<and> name \<noteq> py ''s'' \<and> PCT \<notin> set name \<and> RBRACE \<notin> set name"
  then show "apply_control_codes (concat (map cc_source toks) @ py ''%{'' @ name @ [RBRACE] @ rest)
             = Inl (AssertionError (cc_msg_unhandled name
                 (concat (map cc_source toks) @ py ''%{'' @ name @ [RBRACE] @ rest)))"
    by (simp add: apply_control_codes_def cc_unhandled)
next
  show "apply_control_codes (py ''a%{n}b%{s}c'') = Inr (py ''a'' @ [NL] @ py ''b c'')"
    by (simp add: apply_control_codes_def cc_init_def cc_step_def py_def)
qed

theorem apply_control_codes_expands_witness:
  "cc_step [] cc_init 97 = Inr (cc_init\<lparr>processed_line := [97]\<rparr>)
   \<and> cc_step [] (cc_init\<lparr>in_cc := True, cc_acc := py ''i''\<rparr>) RBRACE
       = Inl (AssertionError (cc_msg_unhandled (py ''i'') []))
   \<and> apply_control_codes (py ''x%{s}}y%{n}'') = Inr (py ''x }y'' @ [NL])
   \<and> apply_control_codes (py ''x%{s}%{i}z'')
       = Inl (AssertionError (cc_msg_unhandled (py ''i'') (py ''x%{s}%{i}z'')))"
proof -
  let ?toks = "[Lit 120, ForceSpace, Lit RBRACE, Lit 121, ForceNewline]"
  let ?toks2 = "[Lit 120, ForceSpace]"
  let ?s = "cc_init\<lparr>in_cc := True, cc_acc := py ''i''\<rparr>"
  have lit: "\<forall>t\<in>set ?toks. t \<noteq> Lit PCT" and lit2: "\<forall>t\<in>set ?toks2. t \<noteq> Lit PCT"
    by simp_all
  have name: "py ''i'' \<noteq> py ''n'' \<and> py ''i'' \<noteq> py ''s'' \<and> PCT \<notin> set (py ''i'')
      \<and> RBRACE \<notin> set (py ''i'')"
    by (simp add: py_def)
  have normal: "\<not> in_cc cc_init \<and> \<not> has_pct cc_init \<and> (97::nat) \<noteq> PCT"
    by (simp add: cc_init_def)
  have code: "in_cc ?s \<and> cc_acc ?s \<noteq> py ''n'' \<and> cc_acc ?s \<noteq> py ''s''"
    by (simp add: py_def)
  have src: "concat (map cc_source ?toks) = py ''x%{s}}y%{n}''"
    and out: "concat (map cc_meaning ?toks) = py ''x }y'' @ [NL]"
    and src2: "concat (map cc_source ?toks2) @ py ''%{'' @ py ''i'' @ [RBRACE] @ py ''z''
                = py ''x%{s}%{i}z''"
    by (simp_all add: py_def)
  from apply_control_codes_expands [of "[]" cc_init 97 ?toks "py ''i''" "py ''z''"] lit normal
  have a: "apply_control_codes (concat (map cc_source ?toks)) = Inr (concat (map cc_meaning ?toks))"
    and c: "cc_step [] cc_init 97 = Inr (cc_init\<lparr>processed_line := processed_line cc_init @ [97]\<rparr>)"
    by blast+
  from apply_control_codes_expands [of "[]" ?s 97 ?toks2 "py ''i''" "py ''z''"] lit2 name code
  have b: "apply_control_codes (concat (map cc_source ?toks2) @ py ''%{'' @ py ''i'' @ [RBRACE] @ py ''z'')
             = Inl (AssertionError (cc_msg_unhandled (py ''i'')
                 (concat (map cc_source ?toks2) @ py ''%{'' @ py ''i'' @ [RBRACE] @ py ''z'')))"
    and d: "cc_step [] ?s RBRACE = Inl (AssertionError (cc_msg_unhandled (cc_acc ?s) []))"
    by blast+
  from a b c d show ?thesis unfolding src out src2 by (simp add: cc_init_def)
qed

text \<open>
  C4, at a failing input. has_pct is set by \<open>%\<close> and cleared only by a following \<open>{\<close>;
  the code point \<open>a\<close> in between is copied to the output and leaves the flag set, so the
  later \<open>{\<close> opens a control code and \<open>%a{n}\<close> becomes \<open>a\<close> and a newline.
\<close>

theorem apply_control_codes_latched_percent:
  "for_each (cc_step (py ''%a{n}'')) (py ''%a'') cc_init
     = Inr (cc_init\<lparr>has_pct := True, processed_line := py ''a''\<rparr>)
   \<and> apply_control_codes (py ''%a{n}'') = Inr (py ''a'' @ [NL])
   \<and> apply_control_codes (py ''%a{n}'') \<noteq> Inr (py ''a{n}'')"
  by (simp add: apply_control_codes_def cc_init_def cc_step_def py_def)

section \<open>Wrapping\<close>

lemmas lb_defs = linebreak_text_def noruby_len_def remove_ruby_text_def rr_init_def rr_step_def
  unicode_aware_len_def DOUBLEWIDE_CHARS_def ruby_aware_split_words_def sw_init_def sw_step_def
  sw_flush_def lb_pack_def lb_finish_def lb_init_def lb_step_def py_def

text \<open>
  C10. linebreak_text does not return a string on every input: for the empty line with
  the cursor at or beyond max_linelen the fast path is not taken, the list of units is
  empty, and \<open>max\<close> of the empty list of widths raises ValueError.
\<close>

theorem linebreak_text_empty_raises:
  "max_linelen \<le> cursor \<Longrightarrow> linebreak_text [] max_linelen cursor = Inl ValueError"
  by (simp add: linebreak_text_def noruby_len_def remove_ruby_text_def rr_init_def
      unicode_aware_len_def ruby_aware_split_words_def sw_init_def)

theorem linebreak_text_empty_raises_witness:
  "(3::int) \<le> 3 \<and> linebreak_text [] 3 3 = Inl ValueError"
  using linebreak_text_empty_raises [of 3 3] by simp

lemma py_max_ge:
  "x \<in> set xs \<Longrightarrow> \<exists>m. py_max xs = Inr m \<and> x \<le> m"
proof (cases xs)
  case Nil
  assume "x \<in> set xs"
  with Nil show ?thesis by simp
next
  case (Cons y ys)
  assume x: "x \<in> set xs"
  have "fold max ys y = Max (set (y # ys))"
    by (rule Max.set_eq_fold [symmetric])
  moreover have "x \<le> Max (set (y # ys))"
    using x Cons by (intro Max_ge) simp_all
  ultimately show ?thesis using Cons by simp
qed

text \<open>
  C6. Whenever ruby_aware_split_words returns the units of a line and one of them has a
  ruby-stripped width above max_linelen, linebreak_text returns the line unchanged, for
  every cursor (on the fast path as well as on the unbreakable check). A line of 100
  \<open>x\<close> with max_linelen 10 is such a line.
\<close>

theorem linebreak_text_unbreakable:
  "ruby_aware_split_words line = Inr splitLine \<Longrightarrow> word \<in> set splitLine \<Longrightarrow>
   max_linelen < noruby_len word \<Longrightarrow>
   linebreak_text line max_linelen cursor = Inr line"
proof -
  assume split: "ruby_aware_split_words line = Inr splitLine"
    and word: "word \<in> set splitLine"
    and wide: "max_linelen < noruby_len word"
  from word have "noruby_len word \<in> set (map noruby_len splitLine)" by simp
  from py_max_ge [OF this] obtain longest
    where longest: "py_max (map noruby_len splitLine) = Inr longest"
      and ge: "noruby_len word \<le> longest" by blast
  from wide ge have "max_linelen < longest" by simp
  with split longest show ?thesis by (simp add: linebreak_text_def)
qed

theorem linebreak_text_unbreakable_witness:
  "ruby_aware_split_words (replicate 100 120) = Inr [replicate 100 120]
   \<and> 10 < noruby_len (replicate 100 120)
   \<and> linebreak_text (replicate 100 120) 10 0 = Inr (replicate 100 120)"
proof -
  have split: "ruby_aware_split_words (replicate 100 120) = Inr [replicate 100 120]"
    by (rule split_single_word) simp_all
  have "noruby_len (replicate 100 120) = unicode_aware_len (replicate 100 120)"
    by (rule noruby_len_plain) simp_all
  also have "\<dots> = 100"
    unfolding unicode_aware_len_def fold_width by (simp add: DOUBLEWIDE_CHARS_def)
  finally have wide: "10 < noruby_len (replicate 100 120)" by simp
  show ?thesis
    using split wide linebreak_text_unbreakable [OF split _ wide, of 0] by simp
qed

text \<open>
  C5, at a failing input. The overflow test measures \<open>acc + ' ' + word\<close> for the first
  word as well, so a first word that fits exactly is counted one column too wide: with
  max_linelen 3 and cursor 0 the word \<open>abc\<close> makes the loop flush the empty accumulator,
  and the result starts with an empty line.
\<close>

theorem linebreak_text_first_word_exact_fit:
  "linebreak_text (py ''abc'') 3 0 = Inr ([NL] @ py ''abc'')
   \<and> linebreak_text (py ''abc de'') 3 0 = Inr ([NL] @ py ''abc'' @ [NL] @ py ''de'')"
  by (simp add: lb_defs)

text \<open>
  C1, at a failing input. The packing loop compares \<open>len\<close> of the accumulator, which
  counts a double-width code point as one column. The line of two pairs of U+2015
  followed by \<open>ab cd\<close>, wrapped to 5 columns, is not returned unchanged (its width is 15
  and its widest unit has width 4), and the first line of the result has width 9.
\<close>

theorem linebreak_text_doublewide_overflow:
  "linebreak_text ([HBAR, HBAR, SPACE, HBAR, HBAR] @ py '' ab cd'') 5 0
     = Inr ([HBAR, HBAR, SPACE, HBAR, HBAR] @ [NL] @ py ''ab cd'')
   \<and> noruby_len [HBAR, HBAR, SPACE, HBAR, HBAR] = 9
   \<and> noruby_len ([HBAR, HBAR, SPACE, HBAR, HBAR] @ py '' ab cd'') = 15
   \<and> ruby_aware_split_words ([HBAR, HBAR, SPACE, HBAR, HBAR] @ py '' ab cd'')
       = Inr [ [HBAR, HBAR], [HBAR, HBAR], py ''ab'', py ''cd'']
   \<and> py_max (map noruby_len [ [HBAR, HBAR], [HBAR, HBAR], py ''ab'', py ''cd'']) = Inr 4"
  by (simp add: lb_defs)

text \<open>
  On a line without double-width code points and with a cursor that is not negative,
  once the unbreakable check has passed, every line the packing loop produces has a
  ruby-stripped width of at most max_linelen.
\<close>

lemma rr_loop_length:
  "for_each (rr_step line) cs s = Inr s' \<Longrightarrow>
   length (rr_ret s') \<le> length (rr_ret s) + length cs"
proof (induction cs arbitrary: s)
  case Nil
  then show ?case by simp
next
  case (Cons c cs)
  then obtain s1 where s1: "rr_step line s c = Inr s1"
    and rest: "for_each (rr_step line) cs s1 = Inr s'"
    by (auto split: sum.splits)
  from s1 have "length (rr_ret s1) \<le> length (rr_ret s) + 1"
    by (auto simp: rr_step_def split: if_splits)
  with Cons.IH [OF rest] show ?case by simp
qed

lemma unicode_aware_len_single_width:
  "set l \<inter> DOUBLEWIDE_CHARS = {} \<Longrightarrow> unicode_aware_len l = int (length l)"
proof -
  assume "set l \<inter> DOUBLEWIDE_CHARS = {}"
  then have "filter (\<lambda>c. c \<in> DOUBLEWIDE_CHARS) l = []"
    by (auto simp: filter_empty_conv)
  then show ?thesis
    unfolding unicode_aware_len_def fold_width by simp
qed

lemma noruby_len_le_length:
  assumes "set l \<inter> DOUBLEWIDE_CHARS = {}"
  shows "noruby_len l \<le> int (length l)"
proof (cases "remove_ruby_text l")
  case (Inl e)
  with assms show ?thesis
    by (simp add: noruby_len_def unicode_aware_len_single_width)
next
  case (Inr r)
  then obtain s where s: "for_each (rr_step l) l rr_init = Inr s" and r: "r = rr_ret s"
    by (auto simp: remove_ruby_text_def split: sum.splits)
  from rr_loop_ret [OF s] have "set r \<subseteq> set l"
    by (auto simp: r rr_init_def)
  with assms have "set r \<inter> DOUBLEWIDE_CHARS = {}" by auto
  then have "unicode_aware_len r = int (length r)"
    by (rule unicode_aware_len_single_width)
  moreover from rr_loop_length [OF s] have "length r \<le> length l"
    by (simp add: r rr_init_def)
  ultimately show ?thesis using Inr by (simp add: noruby_len_def)
qed

lemma noruby_len_nonneg: "0 \<le> noruby_len l"
  unfolding noruby_len_def unicode_aware_len_def fold_width
  by (simp split: sum.splits)

lemma sw_step_single_width:
  assumes "sw_step line s c = Inr s'" "c \<notin> DOUBLEWIDE_CHARS"
    and "\<forall>w\<in>set (sw_ret s). set w \<inter> DOUBLEWIDE_CHARS = {}"
    and "set (sw_acc s) \<inter> DOUBLEWIDE_CHARS = {}"
  shows "(\<forall>w\<in>set (sw_ret s'). set w \<inter> DOUBLEWIDE_CHARS = {})
         \<and> set (sw_acc s') \<inter> DOUBLEWIDE_CHARS = {}"
  using assms
  by (auto simp: sw_step_def sw_flush_def DOUBLEWIDE_CHARS_def split: if_splits)

lemma sw_loop_single_width:
  "for_each (sw_step line) cs s = Inr s' \<Longrightarrow> set cs \<inter> DOUBLEWIDE_CHARS = {} \<Longrightarrow>
   \<forall>w\<in>set (sw_ret s). set w \<inter> DOUBLEWIDE_CHARS = {} \<Longrightarrow>
   set (sw_acc s) \<inter> DOUBLEWIDE_CHARS = {} \<Longrightarrow>
   (\<forall>w\<in>set (sw_ret s'). set w \<inter> DOUBLEWIDE_CHARS = {})
     \<and> set (sw_acc s') \<inter> DOUBLEWIDE_CHARS = {}"
proof (induction cs arbitrary: s)
  case Nil
  then show ?case by simp
next
  case (Cons c cs)
  from Cons.prems(1) obtain s1 where s1: "sw_step line s c = Inr s1"
    and rest: "for_each (sw_step line) cs s1 = Inr s'"
    by (auto split: sum.splits)
  from Cons.prems(2) have c: "c \<notin> DOUBLEWIDE_CHARS" and cs: "set cs \<inter> DOUBLEWIDE_CHARS = {}"
    by auto
  from sw_step_single_width [OF s1 c Cons.prems(3) Cons.prems(4)]
  have "\<forall>w\<in>set (sw_ret s1). set w \<inter> DOUBLEWIDE_CHARS = {}"
    and "set (sw_acc s1) \<inter> DOUBLEWIDE_CHARS = {}" by simp_all
  with Cons.IH [OF rest cs] show ?case by simp
qed

lemma split_words_single_width:
  assumes "ruby_aware_split_words line = Inr splitLine" "set line \<inter> DOUBLEWIDE_CHARS = {}"
  shows "\<forall>w\<in>set splitLine. set w \<inter> DOUBLEWIDE_CHARS = {}"
proof -
  from assms(1) obtain s where s: "for_each (sw_step line) line sw_init = Inr s"
    and split: "splitLine = (if sw_acc s \<noteq> [] then sw_ret s @ [sw_acc s] else sw_ret s)"
    by (auto simp: ruby_aware_split_words_def split: sum.splits)
  from sw_loop_single_width [OF s assms(2)]
  have "(\<forall>w\<in>set (sw_ret s). set w \<inter> DOUBLEWIDE_CHARS = {})
     \<and> set (sw_acc s) \<inter> DOUBLEWIDE_CHARS = {}"
    by (simp add: sw_init_def)
  then show ?thesis by (auto simp: split)
qed

lemma noruby_len_empty: "noruby_len [] = 0"
  by (simp add: noruby_len_def remove_ruby_text_def rr_init_def unicode_aware_len_def)

lemma lb_step_fits:
  assumes inv: "lb_fits max_linelen s"
    and word: "noruby_len word \<le> max_linelen" "set word \<inter> DOUBLEWIDE_CHARS = {}"
    and pos: "0 \<le> max_linelen"
  shows "lb_fits max_linelen (lb_step max_linelen word s)"
proof (cases "int (length (lb_acc s @ [SPACE] @ word)) + start_cursor_pos s > max_linelen")
  case True
  with inv word pos show ?thesis
    by (simp add: lb_fits_def lb_step_def noruby_len_empty)
next
  case fit: False
  show ?thesis
  proof (cases "word = [NL]")
    case True
    with fit inv pos show ?thesis
      by (simp add: lb_fits_def lb_step_def noruby_len_empty)
  next
    case False
    let ?acc = "if \<not> first_word s then lb_acc s @ [SPACE] @ word else word"
    from inv word have single: "set ?acc \<inter> DOUBLEWIDE_CHARS = {}"
      by (auto simp: lb_fits_def DOUBLEWIDE_CHARS_def)
    have "int (length ?acc) \<le> int (length (lb_acc s @ [SPACE] @ word))" by simp
    also from fit inv have "\<dots> \<le> max_linelen" by (simp add: lb_fits_def)
    finally have "int (length ?acc) \<le> max_linelen" .
    with noruby_len_le_length [OF single] have "noruby_len ?acc \<le> max_linelen" by simp
    with single fit False inv show ?thesis
      by (simp add: lb_fits_def lb_step_def)
  qed
qed

lemma lb_loop_fits:
  "lb_fits max_linelen s \<Longrightarrow> 0 \<le> max_linelen \<Longrightarrow>
   \<forall>w\<in>set ws. noruby_len w \<le> max_linelen \<and> set w \<inter> DOUBLEWIDE_CHARS = {} \<Longrightarrow>
   lb_fits max_linelen (fold (lb_step max_linelen) ws s)"
  by (induction ws arbitrary: s) (simp_all add: lb_step_fits)

lemma py_max_bounds:
  "py_max xs = Inr m \<Longrightarrow> m \<in> set xs \<and> (\<forall>x\<in>set xs. x \<le> m)"
proof (cases xs)
  case Nil
  assume "py_max xs = Inr m"
  with Nil show ?thesis by simp
next
  case (Cons y ys)
  assume "py_max xs = Inr m"
  with Cons have m: "m = Max (set (y # ys))"
    by (simp add: Max.set_eq_fold [symmetric] del: set_simps)
  have "Max (set (y # ys)) \<in> set (y # ys)" by (rule Max_in) simp_all
  moreover have "\<forall>x\<in>set (y # ys). x \<le> Max (set (y # ys))" by (simp del: set_simps)
  ultimately show ?thesis using m Cons by simp
qed

lemma linebreak_lines_fit:
  assumes single: "set line \<inter> DOUBLEWIDE_CHARS = {}" and cursor: "0 \<le> cursor"
    and split: "ruby_aware_split_words line = Inr splitLine"
    and longest: "py_max (map noruby_len splitLine) = Inr longest" "longest \<le> max_linelen"
    and pack: "lb_pack splitLine max_linelen cursor = Inr lines"
  shows "\<forall>l\<in>set lines. noruby_len l \<le> max_linelen"
proof -
  from py_max_bounds [OF longest(1)] have mem: "longest \<in> set (map noruby_len splitLine)"
    and le: "\<forall>w\<in>set splitLine. noruby_len w \<le> longest" by simp_all
  from mem have "0 \<le> longest" by (auto simp: noruby_len_nonneg)
  with longest(2) have pos: "0 \<le> max_linelen" by simp
  from le longest(2) split_words_single_width [OF split single]
  have words: "\<forall>w\<in>set splitLine. noruby_len w \<le> max_linelen \<and> set w \<inter> DOUBLEWIDE_CHARS = {}"
    by auto
  have "lb_fits max_linelen (lb_init cursor)"
    using cursor pos by (simp add: lb_fits_def lb_init_def noruby_len_empty)
  from lb_loop_fits [OF this pos words]
  have fits: "lb_fits max_linelen (fold (lb_step max_linelen) splitLine (lb_init cursor))" .
  from pack have "set lines \<subseteq> set (broken_lines (fold (lb_step max_linelen) splitLine (lb_init cursor)))
      \<union> {lb_acc (fold (lb_step max_linelen) splitLine (lb_init cursor))}"
    by (auto simp: lb_pack_def lb_finish_def split: if_splits list.splits)
  with fits show ?thesis by (auto simp: lb_fits_def)
qed

end
